theory Spec2Isabelle
  imports Main "HOL-Library.Word" "HOL-Library.Sublist"
begin

section \<open>JavaScript strings\<close>

text \<open>
  A JavaScript string is a sequence of UTF-16 code units.  A code unit is a 16-bit word,
  so \<open>length\<close> counts what \<open>String.prototype.length\<close> counts, and the tests of the
  source on single characters (\<open>'|'\<close>, \<open>'*'\<close>, white space, line terminators) are tests
  on code units.  \<open>js\<close> turns an ASCII literal into such a string.
\<close>

type_synonym jschar = "16 word"
type_synonym jsstring = "jschar list"

definition js :: "string \<Rightarrow> jsstring" where
  "js s = map of_char s"

section \<open>The versioned document store (services/storageService)\<close>

subsection \<open>Data model (types.ts)\<close>

text \<open>
  \<open>PaperVersion\<close> and \<open>Paper\<close> both have fields \<open>id\<close> and \<open>createdAt\<close> in the source.
  The fields of \<open>PaperVersion\<close> are written \<open>vid\<close> and \<open>vcreatedAt\<close> here, and the \<open>id\<close>
  of a \<open>Paper\<close> is \<open>pid\<close> (\<open>id\<close> is the identity function of HOL).  Timestamps are the
  integers \<open>Date.now()\<close> returns; \<open>versionNumber\<close> is a length plus one, a natural number.
\<close>

record PaperVersion =
  vid :: jsstring
  versionNumber :: nat
  content :: jsstring
  vcreatedAt :: int

record Paper =
  pid :: jsstring
  topic :: jsstring
  overview :: jsstring
  createdAt :: int
  updatedAt :: int
  versions :: "PaperVersion list"

subsection \<open>The persistent store boundary\<close>

text \<open>
  The item under \<open>STORAGE_KEY\<close> is written by the operations below only.
  \<open>localStorage.getItem(STORAGE_KEY)\<close> is \<open>null\<close> (or the empty string) when nothing was
  stored, a string \<open>JSON.parse\<close> rejects, or the serialisation of a collection.
  \<open>JSON.parse (JSON.stringify papers)\<close> gives back the same strings and integers, so the
  third case holds the collection itself.  \<open>getPapers\<close> catches every exception of the
  read and returns the empty array then.  \<open>localStorage.setItem\<close> replaces the item; the
  write is taken to succeed, as the boundary of the specification has it.
\<close>

datatype storage = Missing | Unparsable | Stored "Paper list"

fun getPapers :: "storage \<Rightarrow> Paper list" where
  "getPapers Missing = []"
| "getPapers Unparsable = []"
| "getPapers (Stored papers) = papers"

subsection \<open>Operations\<close>

text \<open>
  \<open>Date.now()\<close> and \<open>generateId()\<close> read the clock and a random source.  Each operation
  takes what they return during the call as arguments: \<open>now\<close> for the one call of
  \<open>Date.now()\<close>, \<open>newId\<close>, \<open>newVid\<close> for the calls of \<open>generateId()\<close> in the order the
  source makes them.  Each operation returns its result and the store it leaves.
\<close>

definition saveNewPaper ::
  "storage \<Rightarrow> int \<Rightarrow> jsstring \<Rightarrow> jsstring \<Rightarrow> jsstring \<Rightarrow> jsstring \<Rightarrow> jsstring
     \<Rightarrow> Paper \<times> storage" where
  "saveNewPaper st now newId newVid topic' overview' content' =
     (let papers = getPapers st;
          timestamp = now;
          newPaper = \<lparr> pid = newId, topic = topic', overview = overview',
                       createdAt = timestamp, updatedAt = timestamp,
                       versions = [\<lparr> vid = newVid, versionNumber = 1,
                                     content = content', vcreatedAt = timestamp \<rparr>] \<rparr>
      in (newPaper, Stored (newPaper # papers)))"

text \<open>\<open>Array.prototype.findIndex\<close>: the first index whose element passes, \<open>None\<close> for -1.\<close>

fun findIndex :: "('a \<Rightarrow> bool) \<Rightarrow> 'a list \<Rightarrow> nat option" where
  "findIndex P [] = None"
| "findIndex P (x # xs) = (if P x then Some 0 else map_option Suc (findIndex P xs))"

text \<open>\<open>papers.splice(index, 1)\<close>: the array without the element at \<open>index\<close>.\<close>

definition splice1 :: "nat \<Rightarrow> 'a list \<Rightarrow> 'a list" where
  "splice1 index xs = take index xs @ drop (Suc index) xs"

definition savePaperVersion ::
  "storage \<Rightarrow> int \<Rightarrow> jsstring \<Rightarrow> jsstring \<Rightarrow> jsstring \<Rightarrow> Paper option \<times> storage" where
  "savePaperVersion st now newVid paperId content' =
     (let papers = getPapers st in
      case findIndex (\<lambda>p. pid p = paperId) papers of
        None \<Rightarrow> (None, st)
      | Some index \<Rightarrow>
          (let paper = papers ! index;
               nextVersionNum = length (versions paper) + 1;
               timestamp = now;
               newVersion = \<lparr> vid = newVid, versionNumber = nextVersionNum,
                              content = content', vcreatedAt = timestamp \<rparr>;
               paper' = paper \<lparr> versions := versions paper @ [newVersion],
                                updatedAt := timestamp \<rparr>
           in (Some paper', Stored (paper' # splice1 index papers))))"

definition getPaperById :: "storage \<Rightarrow> jsstring \<Rightarrow> Paper option" where
  "getPaperById st i = find (\<lambda>p. pid p = i) (getPapers st)"

definition deletePaper :: "storage \<Rightarrow> jsstring \<Rightarrow> storage" where
  "deletePaper st i = Stored (filter (\<lambda>p. pid p \<noteq> i) (getPapers st))"

section \<open>The paper renderer (components/PaperRenderer)\<close>

subsection \<open>String primitives\<close>

text \<open>
  \<open>String.prototype.trim\<close> removes the code units of WhiteSpace and LineTerminator from
  both ends.  The dot of a regular expression without the \<open>s\<close> flag matches every code
  unit but the line terminators.
\<close>

definition isWhiteSpace :: "jschar \<Rightarrow> bool" where
  "isWhiteSpace c \<longleftrightarrow>
     c \<in> set [0x0009, 0x000A, 0x000B, 0x000C, 0x000D, 0x0020, 0x00A0, 0x1680,
              0x2000, 0x2001, 0x2002, 0x2003, 0x2004, 0x2005, 0x2006, 0x2007,
              0x2008, 0x2009, 0x200A, 0x2028, 0x2029, 0x202F, 0x205F, 0x3000, 0xFEFF]"

definition isLineTerminator :: "jschar \<Rightarrow> bool" where
  "isLineTerminator c \<longleftrightarrow> c \<in> set [0x000A, 0x000D, 0x2028, 0x2029]"

definition trim :: "jsstring \<Rightarrow> jsstring" where
  "trim s = rev (dropWhile isWhiteSpace (rev (dropWhile isWhiteSpace s)))"

text \<open>\<open>s.split(sep)\<close> for a separator of one code unit: never the empty array.\<close>

fun split :: "jschar \<Rightarrow> jsstring \<Rightarrow> jsstring list" where
  "split sep [] = [[]]"
| "split sep (c # cs) =
     (if c = sep then [] # split sep cs
      else (case split sep cs of [] \<Rightarrow> [[c]] | f # fs \<Rightarrow> (c # f) # fs))"

text \<open>
  \<open>s.substring(start, end)\<close> clamps both indices to the length and swaps them when
  \<open>start > end\<close>; \<open>s.slice(a, -b)\<close> runs from index \<open>a\<close> to \<open>b\<close> code units before the
  end and is empty when the two cross.
\<close>

definition substring :: "nat \<Rightarrow> nat \<Rightarrow> jsstring \<Rightarrow> jsstring" where
  "substring start end' s =
     (let a = min start (length s); b = min end' (length s);
          from = min a b; to = max a b
      in take (to - from) (drop from s))"

definition slice :: "nat \<Rightarrow> nat \<Rightarrow> jsstring \<Rightarrow> jsstring" where
  "slice a b s = take (length s - b - a) (drop a s)"

text \<open>
  A lazy star \<open>X*?\<close> followed by a literal, matched at the start of \<open>s\<close>: the matcher
  tries the literal first and consumes one more code unit of class \<open>X\<close> only when the
  literal fails.  The result is the number of code units the star consumed.
\<close>

fun lazyStar :: "(jschar \<Rightarrow> bool) \<Rightarrow> jsstring \<Rightarrow> jsstring \<Rightarrow> nat option" where
  "lazyStar cls lit [] = (if lit = [] then Some 0 else None)"
| "lazyStar cls lit (c # cs) =
     (if prefix lit (c # cs) then Some 0
      else if cls c then map_option Suc (lazyStar cls lit cs)
      else None)"

subsection \<open>renderTable\<close>

text \<open>
  \<open>renderTable\<close> computes \<open>headers\<close> and \<open>bodyRows\<close> and lays them out; the model returns
  the two.  \<open>rows[0]\<close> of an empty array is \<open>undefined\<close>, and \<open>undefined.split\<close> throws a
  TypeError.  The expression \<open>row.split('|').filter(c => c.trim() !== '').map(c => c.trim())\<close>
  occurs twice in the source, for the header row and for each body row; it is \<open>cells\<close>.
\<close>

datatype error = TypeError

record tableData =
  headers :: "jsstring list"
  bodyRows :: "jsstring list list"

definition cells :: "jsstring \<Rightarrow> jsstring list" where
  "cells row = map trim (filter (\<lambda>c. trim c \<noteq> []) (split 0x7C row))"

definition renderTable :: "jsstring list \<Rightarrow> error + tableData" where
  "renderTable rows =
     (case rows of
        [] \<Rightarrow> Inl TypeError
      | headerRow # _ \<Rightarrow>
          Inr \<lparr> headers = cells headerRow, bodyRows = map cells (drop 2 rows) \<rparr>)"

subsection \<open>parseFormatting\<close>

text \<open>
  The regular expression \<open>/(\*\*.*?\*\*|\*.*?\*)/g\<close> matched at the start of \<open>s\<close>: the
  length of the match, the first alternative before the second.  The code unit \<open>0x2A\<close>
  is the asterisk, \<open>0x7C\<close> the pipe.
\<close>

definition matchEmphasis :: "jsstring \<Rightarrow> nat option" where
  "matchEmphasis s =
     (case (if prefix [0x2A, 0x2A] s
            then lazyStar (\<lambda>c. \<not> isLineTerminator c) [0x2A, 0x2A] (drop 2 s) else None) of
        Some k \<Rightarrow> Some (2 + k + 2)
      | None \<Rightarrow>
          (case (if prefix [0x2A] s
                 then lazyStar (\<lambda>c. \<not> isLineTerminator c) [0x2A] (drop 1 s) else None) of
             Some k \<Rightarrow> Some (1 + k + 1)
           | None \<Rightarrow> None))"

text \<open>
  \<open>text.split(regex)\<close> with one capture group around the whole pattern: the text between
  two matches, then the match, and the rest of the text after the last match.
  \<open>acc\<close> is the text since the end of the last match.
\<close>

function splitEmphasis :: "jsstring \<Rightarrow> jsstring \<Rightarrow> jsstring list" where
  "splitEmphasis acc [] = [acc]"
| "splitEmphasis acc (c # cs) =
     (case matchEmphasis (c # cs) of
        None \<Rightarrow> splitEmphasis (acc @ [c]) cs
      | Some n \<Rightarrow> acc # take n (c # cs) # splitEmphasis [] (drop n (c # cs)))"
  by pat_completeness auto
termination
  by (relation "measure (\<lambda>(acc, s). length s)")
     (auto simp: matchEmphasis_def split: option.splits if_splits)

text \<open>
  The nodes \<open>parts.map\<close> returns: a string, a \<open>strong\<close> element or an \<open>em\<close> element.
  \<open>formatPart\<close> is the function given to \<open>parts.map\<close>; \<open>startsWith\<close> is \<open>prefix\<close> and
  \<open>endsWith\<close> is \<open>suffix\<close>.
\<close>

datatype run = Plain jsstring | Strong jsstring | Em jsstring

definition formatPart :: "jsstring \<Rightarrow> run" where
  "formatPart part =
     (if prefix [0x2A, 0x2A] part \<and> suffix [0x2A, 0x2A] part then Strong (slice 2 2 part)
      else if prefix [0x2A] part \<and> suffix [0x2A] part then Em (slice 1 1 part)
      else Plain part)"

definition parseFormatting :: "jsstring \<Rightarrow> run list" where
  "parseFormatting text' = map formatPart (splitEmphasis [] text')"

subsection \<open>The sections of a paper\<close>

datatype sectionType = Text | Mermaid | Table

record PaperSection =
  stype :: sectionType
  scontent :: jsstring

text \<open>
  The regular expression \<open>/```mermaid([\s\S]*?)```/g\<close> matched at the start of \<open>s\<close>: the
  length of group 1.  The opening literal has 10 code units, the closing one 3.
\<close>

definition matchFence :: "jsstring \<Rightarrow> nat option" where
  "matchFence s =
     (if prefix (js ''```mermaid'') s
      then lazyStar (\<lambda>c. True) (js ''```'') (drop 10 s) else None)"

text \<open>
  \<open>mermaidRegex.exec(content)\<close> with \<open>lastIndex = i\<close>, where \<open>s\<close> is \<open>content\<close> from index
  \<open>i\<close> on: the index of the first match at or after \<open>i\<close>, its group 1 and the new
  \<open>lastIndex\<close>; \<open>None\<close> for \<open>null\<close>.
\<close>

fun execFrom :: "nat \<Rightarrow> jsstring \<Rightarrow> (nat \<times> jsstring \<times> nat) option" where
  "execFrom i [] = None"
| "execFrom i (c # cs) =
     (case matchFence (c # cs) of
        Some k \<Rightarrow> Some (i, take k (drop 10 (c # cs)), i + 10 + k + 3)
      | None \<Rightarrow> execFrom (Suc i) cs)"

definition mermaidExec :: "jsstring \<Rightarrow> nat \<Rightarrow> (nat \<times> jsstring \<times> nat) option" where
  "mermaidExec content' lastIndex = execFrom lastIndex (drop lastIndex content')"

text \<open>
  The body of \<open>useMemo\<close>: the \<open>while\<close> loop over the matches, with the local variables
  \<open>lastIndex\<close> and \<open>result\<close>, and the remaining text after the loop.
\<close>

function sectionsLoop :: "jsstring \<Rightarrow> nat \<Rightarrow> PaperSection list \<Rightarrow> PaperSection list" where
  "sectionsLoop content' lastIndex result =
     (case mermaidExec content' lastIndex of
        Some (index, group1, lastIndex') \<Rightarrow>
          sectionsLoop content' lastIndex'
            (result
             @ (if index > lastIndex
                then [\<lparr> stype = Text, scontent = substring lastIndex index content' \<rparr>] else [])
             @ [\<lparr> stype = Mermaid, scontent = trim group1 \<rparr>])
      | None \<Rightarrow>
          result
          @ (if lastIndex < length content'
             then [\<lparr> stype = Text, scontent = drop lastIndex content' \<rparr>] else []))"
  by pat_completeness auto
termination
proof (relation "measure (\<lambda>(content', lastIndex, result). length content' - lastIndex)")
  show "wf (measure (\<lambda>(content', lastIndex, result). length content' - lastIndex))"
    by simp
next
  fix content' :: jsstring and lastIndex :: nat and result :: "PaperSection list"
    and m index r group1 lastIndex'
  assume ex: "mermaidExec content' lastIndex = Some m" and m: "(index, r) = m"
    and r: "(group1, lastIndex') = r"
  have bounds: "execFrom i s = Some (idx, g, li) \<Longrightarrow> i < li \<and> li \<le> i + length s"
    for i s idx g li
  proof (induction s arbitrary: i)
    case Nil
    then show ?case by simp
  next
    case (Cons c cs)
    show ?case
    proof (cases "matchFence (c # cs)")
      case None
      with Cons.prems have "execFrom (Suc i) cs = Some (idx, g, li)" by simp
      from Cons.IH [OF this] show ?thesis by simp
    next
      case (Some k)
      then have p: "prefix (js ''```mermaid'') (c # cs)"
        and l: "lazyStar (\<lambda>c. True) (js ''```'') (drop 10 (c # cs)) = Some k"
        by (auto simp: matchFence_def split: if_splits)
      have fits: "lazyStar cls lit t = Some n \<Longrightarrow> n + length lit \<le> length t" for cls lit t n
        by (induction t arbitrary: n) (auto split: if_splits dest: prefix_length_le)
      from fits [OF l] have "k + 3 \<le> length (c # cs) - 10" by (simp add: js_def)
      moreover from prefix_length_le [OF p] have "10 \<le> length (c # cs)" by (simp add: js_def)
      ultimately have "10 + k + 3 \<le> length (c # cs)" by simp
      with Cons.prems Some show ?thesis by auto
    qed
  qed
  from ex m r have "execFrom lastIndex (drop lastIndex content') = Some (index, group1, lastIndex')"
    by (simp add: mermaidExec_def)
  from bounds [OF this] have "lastIndex < lastIndex'"
    and "lastIndex' \<le> lastIndex + length (drop lastIndex content')" by simp_all
  then show "((content', lastIndex',
                result
                @ (if lastIndex < index
                   then [\<lparr> stype = Text, scontent = substring lastIndex index content' \<rparr>] else [])
                @ [\<lparr> stype = Mermaid, scontent = trim group1 \<rparr>]),
               (content', lastIndex, result))
             \<in> measure (\<lambda>(content', lastIndex, result). length content' - lastIndex)"
    by simp
qed

definition sections :: "jsstring \<Rightarrow> PaperSection list" where
  "sections content' = sectionsLoop content' 0 []"

section \<open>Sequences of store operations\<close>

text \<open>
  A call of one of the three mutating operations, with what the clock and the random
  source return during it; \<open>perform\<close> is the store the call leaves, \<open>clock\<close> the
  timestamps it is given.
\<close>

datatype call =
    SaveNewPaper int jsstring jsstring jsstring jsstring jsstring
  | SavePaperVersion int jsstring jsstring jsstring
  | DeletePaper jsstring

fun perform :: "storage \<Rightarrow> call \<Rightarrow> storage" where
  "perform st (SaveNewPaper now newId newVid t ov c) =
     snd (saveNewPaper st now newId newVid t ov c)"
| "perform st (SavePaperVersion now newVid paperId c) =
     snd (savePaperVersion st now newVid paperId c)"
| "perform st (DeletePaper i) = deletePaper st i"

fun performAll :: "storage \<Rightarrow> call list \<Rightarrow> storage" where
  "performAll st [] = st"
| "performAll st (c # cs) = performAll (perform st c) cs"

fun clock :: "call \<Rightarrow> int list" where
  "clock (SaveNewPaper now newId newVid t ov c) = [now]"
| "clock (SavePaperVersion now newVid paperId c) = [now]"
| "clock (DeletePaper i) = []"

definition clocks :: "call list \<Rightarrow> int list" where
  "clocks cs = concat (map clock cs)"

text \<open>The collection is ordered by descending \<open>updatedAt\<close>.\<close>

definition newestFirst :: "Paper list \<Rightarrow> bool" where
  "newestFirst ps = sorted_wrt (\<lambda>a b. updatedAt b \<le> updatedAt a) ps"

text \<open>
  Successive calls of \<open>savePaperVersion\<close> with the same \<open>paperId\<close>, one for each triple
  of timestamp, version id and content: the results of the calls and the last store.
\<close>

fun saveVersions ::
  "storage \<Rightarrow> jsstring \<Rightarrow> (int \<times> jsstring \<times> jsstring) list \<Rightarrow> Paper option list \<times> storage" where
  "saveVersions st paperId [] = ([], st)"
| "saveVersions st paperId ((now, newVid, c) # rest) =
     (let (r, st') = savePaperVersion st now newVid paperId c;
          (rs, st'') = saveVersions st' paperId rest
      in (r # rs, st''))"

text \<open>The version numbers of a paper are 1, 2, ..., up to the number of its versions.\<close>

definition numbered :: "Paper \<Rightarrow> bool" where
  "numbered p \<longleftrightarrow> map versionNumber (versions p) = [1..<Suc (length (versions p))]"

section \<open>The table rule as the specification words it\<close>

text \<open>
  The specification describes the cells of a row as the fragments between the pipes,
  without the leading and the trailing fragment when these are empty after trimming, each
  trimmed.  \<open>cellsAsStated\<close> follows these words, for comparison with \<open>cells\<close>.
\<close>

definition dropEdges :: "jsstring list \<Rightarrow> jsstring list" where
  "dropEdges fs =
     (let fs1 = (case fs of [] \<Rightarrow> [] | f # r \<Rightarrow> if trim f = [] then r else fs)
      in if fs1 \<noteq> [] \<and> trim (last fs1) = [] then butlast fs1 else fs1)"

definition cellsAsStated :: "jsstring \<Rightarrow> jsstring list" where
  "cellsAsStated row = map trim (dropEdges (split 0x7C row))"

section \<open>A small store\<close>

definition paperA :: Paper where
  "paperA = \<lparr> pid = js ''a'', topic = js ''Graphs'', overview = js ''Survey'',
               createdAt = 10, updatedAt = 20,
               versions = [\<lparr> vid = js ''a1'', versionNumber = 1, content = js ''# Graphs'',
                             vcreatedAt = 10 \<rparr>,
                           \<lparr> vid = js ''a2'', versionNumber = 2, content = js ''# Graphs 2'',
                             vcreatedAt = 20 \<rparr>] \<rparr>"

definition paperB :: Paper where
  "paperB = \<lparr> pid = js ''b'', topic = js ''Trees'', overview = js ''Notes'',
               createdAt = 15, updatedAt = 15,
               versions = [\<lparr> vid = js ''b1'', versionNumber = 1, content = js ''# Trees'',
                             vcreatedAt = 15 \<rparr>] \<rparr>"

definition twoPapers :: storage where
  "twoPapers = Stored [paperA, paperB]"

text \<open>
  Four calls on it: a new paper \<open>c\<close>, a new version of \<open>b\<close>, the deletion of \<open>a\<close>, and a
  new version for an id no paper has.
\<close>

definition someCalls :: "call list" where
  "someCalls =
     [SaveNewPaper 30 (js ''c'') (js ''c1'') (js ''Sets'') (js ''Draft'') (js ''# Sets''),
      SavePaperVersion 40 (js ''b2'') (js ''b'') (js ''# Trees 2''),
      DeletePaper (js ''a''),
      SavePaperVersion 50 (js ''z1'') (js ''z'') (js ''# Z'')]"

section \<open>Properties of the store\<close>

subsection \<open>Array primitives\<close>

lemma findIndex_Some:
  "findIndex P xs = Some i \<Longrightarrow> i < length xs \<and> P (xs ! i) \<and> (\<forall>j<i. \<not> P (xs ! j))"
proof (induction xs arbitrary: i)
  case Nil
  then show ?case by simp
next
  case (Cons x xs)
  show ?case
  proof (cases "P x")
    case True
    with Cons.prems show ?thesis by simp
  next
    case False
    with Cons.prems obtain k where k: "findIndex P xs = Some k" "i = Suc k"
      by auto
    from Cons.IH [OF k(1)] False k(2) show ?thesis
      by (auto simp: less_Suc_eq_0_disj)
  qed
qed

lemma findIndex_None: "findIndex P xs = None \<longleftrightarrow> (\<forall>x\<in>set xs. \<not> P x)"
  by (induction xs) auto

lemma findIndex_present:
  "x \<in> set xs \<Longrightarrow> P x \<Longrightarrow> \<exists>i. findIndex P xs = Some i"
  using findIndex_None [of P xs] by (cases "findIndex P xs") auto

lemma length_splice1: "index < length xs \<Longrightarrow> length (splice1 index xs) = length xs - 1"
  by (simp add: splice1_def)

lemma set_splice1: "set (splice1 index xs) \<subseteq> set xs"
  unfolding splice1_def using set_take_subset [of index xs] set_drop_subset [of "Suc index" xs]
  by auto

lemma splice1_nth:
  "index < length xs \<Longrightarrow> j < length xs - 1 \<Longrightarrow>
     splice1 index xs ! j = (if j < index then xs ! j else xs ! Suc j)"
  by (auto simp: splice1_def nth_append min_def)

subsection \<open>savePaperVersion on a stored paper\<close>

text \<open>
  Claim C1.  When the store holds a paper with the given id, \<open>savePaperVersion\<close> takes the
  first such paper, at \<open>index\<close>, and returns it with exactly one version appended.  The
  new version has the number \<open>length (versions paper) + 1\<close> and the timestamp of the call,
  the earlier versions are as before, \<open>updatedAt\<close> is that same timestamp and the other
  fields are unchanged.  The paper is at index 0 of the stored collection, and the other
  papers follow unchanged in their former order: those before \<open>index\<close> one place later,
  those after \<open>index\<close> at their place.
\<close>

theorem savePaperVersion_appends:
  assumes present: "paperId \<in> pid ` set (getPapers st)"
  shows "\<exists>index paper newVersion paper' st'.
           findIndex (\<lambda>p. pid p = paperId) (getPapers st) = Some index
         \<and> index < length (getPapers st)
         \<and> paper = getPapers st ! index
         \<and> pid paper = paperId
         \<and> savePaperVersion st now newVid paperId c = (Some paper', st')
         \<and> versions paper' = versions paper @ [newVersion]
         \<and> versionNumber newVersion = length (versions paper) + 1
         \<and> vcreatedAt newVersion = now
         \<and> content newVersion = c
         \<and> vid newVersion = newVid
         \<and> updatedAt paper' = now
         \<and> pid paper' = pid paper \<and> topic paper' = topic paper
         \<and> overview paper' = overview paper \<and> createdAt paper' = createdAt paper
         \<and> getPapers st' = paper' # splice1 index (getPapers st)
         \<and> length (getPapers st') = length (getPapers st)
         \<and> (\<forall>j. j < index \<longrightarrow> getPapers st' ! Suc j = getPapers st ! j)
         \<and> (\<forall>j. index < j \<and> j < length (getPapers st) \<longrightarrow> getPapers st' ! j = getPapers st ! j)"
proof -
  from present obtain index where ix: "findIndex (\<lambda>p. pid p = paperId) (getPapers st) = Some index"
    using findIndex_present [of _ "getPapers st" "\<lambda>p. pid p = paperId"] by auto
  from findIndex_Some [OF ix] have lt: "index < length (getPapers st)"
    and pidx: "pid (getPapers st ! index) = paperId" by auto
  define paper where "paper = getPapers st ! index"
  define newVersion where "newVersion = \<lparr> vid = newVid, versionNumber = length (versions paper) + 1,
                              content = c, vcreatedAt = now \<rparr>"
  define paper' where "paper' = paper \<lparr> versions := versions paper @ [newVersion], updatedAt := now \<rparr>"
  define st' where "st' = Stored (paper' # splice1 index (getPapers st))"
  have run: "savePaperVersion st now newVid paperId c = (Some paper', st')"
    by (simp add: savePaperVersion_def ix Let_def paper_def newVersion_def paper'_def st'_def)
  have others1: "\<forall>j. j < index \<longrightarrow> getPapers st' ! Suc j = getPapers st ! j"
    using lt by (simp add: st'_def splice1_nth)
  have others2: "\<forall>j. index < j \<and> j < length (getPapers st) \<longrightarrow> getPapers st' ! j = getPapers st ! j"
  proof (intro allI impI)
    fix j assume j: "index < j \<and> j < length (getPapers st)"
    then obtain k where k: "j = Suc k" by (cases j) auto
    with j lt show "getPapers st' ! j = getPapers st ! j"
      by (auto simp: st'_def splice1_nth)
  qed
  have len: "length (getPapers st') = length (getPapers st)"
    using lt by (simp add: st'_def length_splice1)
  show ?thesis
    apply (rule exI [of _ index], rule exI [of _ paper], rule exI [of _ newVersion],
           rule exI [of _ paper'], rule exI [of _ st'])
    using ix lt pidx run others1 others2 len
    by (simp add: paper_def [symmetric]) (simp add: paper'_def newVersion_def st'_def)
qed

text \<open>
  The store \<open>twoPapers\<close> holds the paper \<open>b\<close> at index 1, with one version.
\<close>

theorem savePaperVersion_appends_witness:
  "js ''b'' \<in> pid ` set (getPapers twoPapers)
   \<and> (\<exists>paper' st'.
         savePaperVersion twoPapers 30 (js ''b2'') (js ''b'') (js ''# Trees 2'') = (Some paper', st')
       \<and> map versionNumber (versions paper') = [1, 2]
       \<and> map vcreatedAt (versions paper') = [15, 30]
       \<and> updatedAt paper' = 30
       \<and> getPapers st' = [paper', paperA])"
proof -
  have h: "js ''b'' \<in> pid ` set (getPapers twoPapers)"
    by (simp add: twoPapers_def paperA_def paperB_def js_def)
  have ix: "findIndex (\<lambda>p. pid p = js ''b'') (getPapers twoPapers) = Some 1"
    by (simp add: twoPapers_def paperA_def paperB_def js_def)
  from savePaperVersion_appends [OF h, of 30 "js ''b2''" "js ''# Trees 2''"] 
  obtain index paper newVersion paper' st' where
      r: "findIndex (\<lambda>p. pid p = js ''b'') (getPapers twoPapers) = Some index"
         "paper = getPapers twoPapers ! index"
         "savePaperVersion twoPapers 30 (js ''b2'') (js ''b'') (js ''# Trees 2'') = (Some paper', st')"
         "versions paper' = versions paper @ [newVersion]"
         "versionNumber newVersion = length (versions paper) + 1"
         "vcreatedAt newVersion = 30"
         "updatedAt paper' = 30"
         "getPapers st' = paper' # splice1 index (getPapers twoPapers)"
    by blast
  from r(1) ix have i: "index = 1" by simp
  have p: "paper = paperB" using r(2) by (simp add: i twoPapers_def)
  have "map versionNumber (versions paper') = [1, 2]"
    using r(4,5) by (simp add: p paperB_def)
  moreover have "map vcreatedAt (versions paper') = [15, 30]"
    using r(4,6) by (simp add: p paperB_def)
  moreover have "getPapers st' = [paper', paperA]"
    using r(8) by (simp add: i twoPapers_def splice1_def)
  ultimately show ?thesis using h r(3,7) by simp
qed

subsection \<open>saveNewPaper\<close>

text \<open>
  Claim C7, as amended.  For every topic, overview and content, \<open>saveNewPaper\<close> returns a
  paper whose id is the value \<open>generateId()\<close> returned for the call.  The id is stored
  without being compared with the stored ones: the ids of the collection are pairwise
  distinct after the call exactly when they were before it and the generated value is not
  among them.  The paper has \<open>createdAt\<close> equal to \<open>updatedAt\<close> and exactly one version,
  numbered 1, created at the same timestamp.  It is at index 0 of the stored collection,
  before the papers stored earlier.  It has at least one version, and when every stored
  paper had one before the call, every stored paper has one after it.
\<close>

theorem saveNewPaper_creates:
  "let (p, st') = saveNewPaper st now newId newVid t ov c in
     pid p = newId
   \<and> (distinct (map pid (getPapers st'))
        \<longleftrightarrow> newId \<notin> pid ` set (getPapers st) \<and> distinct (map pid (getPapers st)))
   \<and> topic p = t \<and> overview p = ov
   \<and> createdAt p = now \<and> updatedAt p = createdAt p
   \<and> length (versions p) = 1
   \<and> versionNumber (versions p ! 0) = 1
   \<and> vcreatedAt (versions p ! 0) = createdAt p
   \<and> content (versions p ! 0) = c
   \<and> vid (versions p ! 0) = newVid
   \<and> getPapers st' = p # getPapers st
   \<and> getPapers st' ! 0 = p
   \<and> 1 \<le> length (versions p)
   \<and> ((\<forall>q \<in> set (getPapers st). 1 \<le> length (versions q))
        \<longrightarrow> (\<forall>q \<in> set (getPapers st'). 1 \<le> length (versions q)))"
  by (auto simp: saveNewPaper_def Let_def)

theorem saveNewPaper_creates_witness:
  "js ''c'' \<notin> pid ` set (getPapers twoPapers)
   \<and> distinct (map pid (getPapers twoPapers))
   \<and> list_all (\<lambda>q. 1 \<le> length (versions q)) (getPapers twoPapers)
   \<and> (let (p, st') = saveNewPaper twoPapers 30 (js ''c'') (js ''c1'')
                        (js ''Sets'') (js ''Draft'') (js ''# Sets'')
      in map pid (getPapers st') = [js ''c'', js ''a'', js ''b'']
       \<and> distinct (map pid (getPapers st'))
       \<and> createdAt p = 30 \<and> updatedAt p = 30
       \<and> map versionNumber (versions p) = [1]
       \<and> map vcreatedAt (versions p) = [30]
       \<and> list_all (\<lambda>q. 1 \<le> length (versions q)) (getPapers st'))"
proof -
  have h1: "js ''c'' \<notin> pid ` set (getPapers twoPapers)"
    by (simp add: twoPapers_def paperA_def paperB_def js_def)
  have h0: "distinct (map pid (getPapers twoPapers))"
    by (simp add: twoPapers_def paperA_def paperB_def js_def)
  have h2: "\<forall>q \<in> set (getPapers twoPapers). 1 \<le> length (versions q)"
    by (simp add: twoPapers_def paperA_def paperB_def)
  obtain p st' where r: "saveNewPaper twoPapers 30 (js ''c'') (js ''c1'')
                        (js ''Sets'') (js ''Draft'') (js ''# Sets'') = (p, st')"
    by (cases "saveNewPaper twoPapers 30 (js ''c'') (js ''c1'')
                        (js ''Sets'') (js ''Draft'') (js ''# Sets'')")
  from saveNewPaper_creates [of twoPapers 30 "js ''c''" "js ''c1''" "js ''Sets''"
      "js ''Draft''" "js ''# Sets''"] r h0 h1 h2
  have f: "pid p = js ''c''" "distinct (map pid (getPapers st'))"
    "createdAt p = 30" "updatedAt p = 30" "length (versions p) = 1"
    "versionNumber (versions p ! 0) = 1" "vcreatedAt (versions p ! 0) = 30"
    "getPapers st' = p # getPapers twoPapers"
    "\<forall>q \<in> set (getPapers st'). 1 \<le> length (versions q)"
    by auto
  from f(5) obtain v where v: "versions p = [v]"
    by (cases "versions p") auto
  have ids: "map pid (getPapers st') = [js ''c'', js ''a'', js ''b'']"
    using f(1,8) by (simp add: twoPapers_def paperA_def paperB_def)
  show ?thesis
    using h0 h1 h2 f(2,3,4,6,7,9) ids v by (simp add: r list_all_iff)
qed

text \<open>
  Claim C7 as stated fails when \<open>generateId()\<close> returns the id of a stored paper: the
  paper \<open>saveNewPaper\<close> returns has the id of \<open>paperA\<close>, and the collection holds both.
\<close>

theorem saveNewPaper_creates_counterexample:
  "pid (fst (saveNewPaper twoPapers 30 (js ''a'') (js ''a3'')
               (js ''Sets'') (js ''Draft'') (js ''# Sets''))) = pid paperA
   \<and> getPapers (snd (saveNewPaper twoPapers 30 (js ''a'') (js ''a3'')
               (js ''Sets'') (js ''Draft'') (js ''# Sets'')))
       = [fst (saveNewPaper twoPapers 30 (js ''a'') (js ''a3'')
               (js ''Sets'') (js ''Draft'') (js ''# Sets'')), paperA, paperB]
   \<and> \<not> distinct (map pid (getPapers (snd (saveNewPaper twoPapers 30 (js ''a'') (js ''a3'')
               (js ''Sets'') (js ''Draft'') (js ''# Sets'')))))"
  by (simp add: saveNewPaper_def Let_def twoPapers_def paperA_def paperB_def)

subsection \<open>deletePaper\<close>

text \<open>
  Claim C9.  \<open>deletePaper\<close> has no failing branch: it returns a store for every store and
  every id.  With an id no stored paper has, the collection read back is the collection
  read before, of the same length.  Deleting the same id a second time leaves the store
  the first deletion left.  After the deletion no stored paper has the id (a paper is
  stored with its versions, so these go with it), and the collection is the former one
  without the papers of that id.
\<close>

theorem deletePaper_absent_idempotent:
  "(i \<notin> pid ` set (getPapers st) \<longrightarrow>
       getPapers (deletePaper st i) = getPapers st
     \<and> length (getPapers (deletePaper st i)) = length (getPapers st))
   \<and> deletePaper (deletePaper st i) i = deletePaper st i
   \<and> i \<notin> pid ` set (getPapers (deletePaper st i))
   \<and> getPaperById (deletePaper st i) i = None
   \<and> getPapers (deletePaper st i) = filter (\<lambda>p. pid p \<noteq> i) (getPapers st)"
proof -
  have absent: "i \<notin> pid ` set (getPapers st) \<Longrightarrow> filter (\<lambda>p. pid p \<noteq> i) (getPapers st) = getPapers st"
    by (rule filter_True) auto
  have gone: "find (\<lambda>p. pid p = i) (filter (\<lambda>p. pid p \<noteq> i) (getPapers st)) = None"
    by (simp add: find_None_iff)
  show ?thesis
    using absent gone by (auto simp: deletePaper_def getPaperById_def)
qed

theorem deletePaper_absent_idempotent_witness:
  "js ''z'' \<notin> pid ` set (getPapers twoPapers)
   \<and> getPapers (deletePaper twoPapers (js ''z'')) = [paperA, paperB]
   \<and> getPapers (deletePaper Missing (js ''z'')) = getPapers Missing
   \<and> getPapers (deletePaper twoPapers (js ''a'')) = [paperB]
   \<and> deletePaper (deletePaper twoPapers (js ''a'')) (js ''a'') = Stored [paperB]"
proof -
  have h: "js ''z'' \<notin> pid ` set (getPapers twoPapers)"
    by (simp add: twoPapers_def paperA_def paperB_def js_def)
  have a: "filter (\<lambda>p. pid p \<noteq> js ''a'') (getPapers twoPapers) = [paperB]"
    by (simp add: twoPapers_def paperA_def paperB_def js_def)
  have m: "js ''z'' \<notin> pid ` set (getPapers Missing)" by simp
  from deletePaper_absent_idempotent [of "js ''z''" twoPapers] h
  have 1: "getPapers (deletePaper twoPapers (js ''z'')) = [paperA, paperB]"
    by (simp add: twoPapers_def)
  from deletePaper_absent_idempotent [of "js ''z''" Missing] m
  have 2: "getPapers (deletePaper Missing (js ''z'')) = getPapers Missing"
    by blast
  from deletePaper_absent_idempotent [of "js ''a''" twoPapers] a
  have 3: "getPapers (deletePaper twoPapers (js ''a'')) = [paperB]"
    and 4: "deletePaper (deletePaper twoPapers (js ''a'')) (js ''a'') = deletePaper twoPapers (js ''a'')"
    by simp_all
  have 5: "deletePaper twoPapers (js ''a'') = Stored [paperB]"
    using a by (simp add: deletePaper_def)
  show ?thesis using h 1 2 3 4 5 by simp
qed

subsection \<open>savePaperVersion on an unknown id\<close>

text \<open>
  Claim C10.  When no stored paper has the given id, \<open>savePaperVersion\<close> returns \<open>null\<close>
  and the store is the store it was given: nothing is written, the item under the
  storage key is the one that was there before the call.
\<close>

theorem savePaperVersion_absent:
  assumes "paperId \<notin> pid ` set (getPapers st)"
  shows "savePaperVersion st now newVid paperId c = (None, st)"
proof -
  from assms have "findIndex (\<lambda>p. pid p = paperId) (getPapers st) = None"
    by (auto simp: findIndex_None)
  then show ?thesis by (simp add: savePaperVersion_def)
qed

theorem savePaperVersion_absent_witness:
  "js ''z'' \<notin> pid ` set (getPapers twoPapers)
   \<and> savePaperVersion twoPapers 30 (js ''z1'') (js ''z'') (js ''# Z'') = (None, twoPapers)"
proof -
  have h: "js ''z'' \<notin> pid ` set (getPapers twoPapers)"
    by (simp add: twoPapers_def paperA_def paperB_def js_def)
  from savePaperVersion_absent [OF h] h show ?thesis by simp
qed

subsection \<open>Version numbers\<close>

lemma savePaperVersion_front:
  assumes "getPapers st = p # ps" "pid p = i"
  shows "savePaperVersion st now newVid i c =
           (Some (p\<lparr>versions := versions p @ [\<lparr>vid = newVid, versionNumber = length (versions p) + 1,
                                              content = c, vcreatedAt = now\<rparr>], updatedAt := now\<rparr>),
            Stored (p\<lparr>versions := versions p @ [\<lparr>vid = newVid, versionNumber = length (versions p) + 1,
                                              content = c, vcreatedAt = now\<rparr>], updatedAt := now\<rparr> # ps))"
  using assms by (simp add: savePaperVersion_def Let_def splice1_def)

lemma saveVersions_front:
  assumes "getPapers st = p # ps" "pid p = i" "numbered p"
  shows "case saveVersions st i edits of (rs, st') \<Rightarrow>
           length rs = length edits
         \<and> (\<forall>k<length rs. \<exists>q. rs ! k = Some q
               \<and> map versionNumber (versions q) = [1..<Suc (length (versions p)) + Suc k])
         \<and> (\<exists>q. getPapers st' = q # ps \<and> pid q = i
               \<and> map versionNumber (versions q) = [1..<Suc (length (versions p)) + length edits])"
  using assms
proof (induction edits arbitrary: st p)
  case Nil
  then show ?case by (simp add: numbered_def)
next
  case (Cons e edits)
  obtain now newVid c where e: "e = (now, newVid, c)" by (cases e)
  define p' where "p' = p\<lparr>versions := versions p @ [\<lparr>vid = newVid, versionNumber = length (versions p) + 1,
                                              content = c, vcreatedAt = now\<rparr>], updatedAt := now\<rparr>"
  have step: "savePaperVersion st now newVid i c = (Some p', Stored (p' # ps))"
    using savePaperVersion_front [OF Cons.prems(1,2)] by (simp add: p'_def)
  have p'1: "getPapers (Stored (p' # ps)) = p' # ps" by simp
  have p'2: "pid p' = i" using Cons.prems(2) by (simp add: p'_def)
  have p'3: "numbered p'" using Cons.prems(3) by (simp add: p'_def numbered_def)
  have len: "length (versions p') = Suc (length (versions p))" by (simp add: p'_def)
  obtain rs st'' where rest: "saveVersions (Stored (p' # ps)) i edits = (rs, st'')"
    by (cases "saveVersions (Stored (p' # ps)) i edits")
  from Cons.IH [OF p'1 p'2 p'3] rest len
  have ih: "length rs = length edits"
    "\<forall>k<length rs. \<exists>q. rs ! k = Some q
               \<and> map versionNumber (versions q) = [1..<Suc (Suc (length (versions p))) + Suc k]"
    "\<exists>q. getPapers st'' = q # ps \<and> pid q = i
               \<and> map versionNumber (versions q) = [1..<Suc (Suc (length (versions p))) + length edits]"
    by auto
  have whole: "saveVersions st i (e # edits) = (Some p' # rs, st'')"
    by (simp add: e step rest)
  have first: "map versionNumber (versions p') = [1..<Suc (length (versions p)) + Suc 0]"
    using p'3 len by (simp add: numbered_def)
  have each: "\<forall>k<length (Some p' # rs). \<exists>q. (Some p' # rs) ! k = Some q
               \<and> map versionNumber (versions q) = [1..<Suc (length (versions p)) + Suc k]"
  proof (intro allI impI)
    fix k assume k: "k < length (Some p' # rs)"
    show "\<exists>q. (Some p' # rs) ! k = Some q
               \<and> map versionNumber (versions q) = [1..<Suc (length (versions p)) + Suc k]"
    proof (cases k)
      case 0
      with first show ?thesis by simp
    next
      case (Suc m)
      with k ih(2) show ?thesis by simp
    qed
  qed
  show ?case
    unfolding whole using ih(1) ih(3) each by simp
qed

lemma perform_numbered:
  assumes "\<forall>p\<in>set (getPapers st). numbered p"
  shows "\<forall>p\<in>set (getPapers (perform st c)). numbered p"
proof (cases c)
  case (SaveNewPaper now newId newVid t ov c')
  with assms show ?thesis by (auto simp: saveNewPaper_def Let_def numbered_def)
next
  case (SavePaperVersion now newVid paperId c')
  show ?thesis
  proof (cases "findIndex (\<lambda>p. pid p = paperId) (getPapers st)")
    case None
    with SavePaperVersion assms show ?thesis by (simp add: savePaperVersion_def)
  next
    case (Some index)
    from findIndex_Some [OF Some] have "getPapers st ! index \<in> set (getPapers st)" by simp
    with assms have "numbered (getPapers st ! index)" by blast
    then have "numbered ((getPapers st ! index)
        \<lparr>versions := versions (getPapers st ! index)
            @ [\<lparr>vid = newVid, versionNumber = length (versions (getPapers st ! index)) + 1,
                content = c', vcreatedAt = now\<rparr>],
         updatedAt := now\<rparr>)"
      by (simp add: numbered_def)
    moreover have "\<forall>q\<in>set (splice1 index (getPapers st)). numbered q"
      using assms set_splice1 [of index "getPapers st"] by blast
    ultimately show ?thesis
      using SavePaperVersion Some by (simp add: savePaperVersion_def Let_def)
  qed
next
  case (DeletePaper i)
  with assms show ?thesis by (simp add: deletePaper_def)
qed

lemma performAll_numbered:
  "\<forall>p\<in>set (getPapers st). numbered p \<Longrightarrow> \<forall>p\<in>set (getPapers (performAll st cs)). numbered p"
proof (induction cs arbitrary: st)
  case Nil
  then show ?case by simp
next
  case (Cons c cs)
  from Cons.IH [OF perform_numbered [OF Cons.prems]] show ?case by simp
qed

text \<open>
  Claim C2.  Take the paper \<open>saveNewPaper\<close> creates and any finite sequence of calls of
  \<open>savePaperVersion\<close> with its id.  Every call succeeds, the paper the \<open>k\<close>-th call returns
  (counting from 0) has the version numbers 1, 2, ..., \<open>k + 2\<close> in this order, and after the
  calls the paper found under the id has the version numbers 1, 2, ..., \<open>n + 1\<close>, where \<open>n\<close>
  is the number of calls: contiguous, ascending, from 1, without gap or repetition.
  Calls on other papers in between do not change this: when the version numbers of every
  stored paper are 1, 2, ... up to the number of its versions, they still are after any
  sequence of \<open>saveNewPaper\<close>, \<open>savePaperVersion\<close> and \<open>deletePaper\<close> calls.
\<close>

theorem versionNumbers_contiguous:
  "(let st1 = snd (saveNewPaper st now newId newVid t ov c);
        (rs, st2) = saveVersions st1 newId edits
    in length rs = length edits
     \<and> (\<forall>k<length rs. \<exists>q. rs ! k = Some q \<and> map versionNumber (versions q) = [1..<k + 3])
     \<and> (\<exists>q. getPaperById st2 newId = Some q
            \<and> map versionNumber (versions q) = [1..<length edits + 2]
            \<and> length (versions q) = length edits + 1))
   \<and> ((\<forall>p\<in>set (getPapers st). numbered p)
        \<longrightarrow> (\<forall>p\<in>set (getPapers (performAll st cs)). numbered p))"
proof (rule conjI)
  show "(\<forall>p\<in>set (getPapers st). numbered p)
        \<longrightarrow> (\<forall>p\<in>set (getPapers (performAll st cs)). numbered p)"
    using performAll_numbered [of st cs] by blast
next
  define p where "p = fst (saveNewPaper st now newId newVid t ov c)"
  define st1 where "st1 = snd (saveNewPaper st now newId newVid t ov c)"
  have a: "getPapers st1 = p # getPapers st" and b: "pid p = newId" and n: "numbered p"
    and l: "length (versions p) = 1"
    by (simp_all add: p_def st1_def saveNewPaper_def Let_def numbered_def)
  obtain rs st2 where r: "saveVersions st1 newId edits = (rs, st2)"
    by (cases "saveVersions st1 newId edits")
  from saveVersions_front [OF a b n, of edits] r l
  have f: "length rs = length edits"
    "\<forall>k<length rs. \<exists>q. rs ! k = Some q \<and> map versionNumber (versions q) = [1..<Suc (Suc (Suc k))]"
    "\<exists>q. getPapers st2 = q # getPapers st \<and> pid q = newId
               \<and> map versionNumber (versions q) = [1..<Suc (Suc (length edits))]"
    by auto
  from f(3) obtain q where q: "getPapers st2 = q # getPapers st" "pid q = newId"
     "map versionNumber (versions q) = [1..<Suc (Suc (length edits))]" by auto
  have g: "getPaperById st2 newId = Some q" using q by (simp add: getPaperById_def)
  have lq: "length (versions q) = length edits + 1"
  proof -
    have "length (map versionNumber (versions q)) = length [1..<Suc (Suc (length edits))]"
      by (simp only: q(3))
    then show ?thesis by (simp del: upt_Suc)
  qed
  have three: "\<And>k. k + 3 = Suc (Suc (Suc k))" by simp
  show "let st1 = snd (saveNewPaper st now newId newVid t ov c);
            (rs, st2) = saveVersions st1 newId edits
        in length rs = length edits
         \<and> (\<forall>k<length rs. \<exists>q. rs ! k = Some q \<and> map versionNumber (versions q) = [1..<k + 3])
         \<and> (\<exists>q. getPaperById st2 newId = Some q
                \<and> map versionNumber (versions q) = [1..<length edits + 2]
                \<and> length (versions q) = length edits + 1)"
    unfolding st1_def [symmetric] Let_def r using f(1,2) g q(3) lq by (simp add: three)
qed

theorem versionNumbers_contiguous_witness:
  "(let st1 = snd (saveNewPaper twoPapers 30 (js ''c'') (js ''c1'')
                     (js ''Sets'') (js ''Draft'') (js ''# Sets''));
        (rs, st2) = saveVersions st1 (js ''c'')
                      [(40, js ''c2'', js ''# Sets 2''), (50, js ''c3'', js ''# Sets 3'')]
    in map (map_option (\<lambda>q. map versionNumber (versions q))) rs = [Some [1, 2], Some [1, 2, 3]]
     \<and> map_option (\<lambda>q. map versionNumber (versions q)) (getPaperById st2 (js ''c''))
         = Some [1, 2, 3])
   \<and> list_all numbered (getPapers twoPapers)
   \<and> list_all numbered (getPapers (performAll twoPapers someCalls))"
proof -
  have h: "\<forall>p\<in>set (getPapers twoPapers). numbered p"
    by (simp add: twoPapers_def paperA_def paperB_def numbered_def upt_rec)
  from versionNumbers_contiguous [of twoPapers _ _ _ _ _ _ _ someCalls] h
  have inv: "\<forall>p\<in>set (getPapers (performAll twoPapers someCalls)). numbered p"
    by blast
  define st1 where "st1 = snd (saveNewPaper twoPapers 30 (js ''c'') (js ''c1'')
                     (js ''Sets'') (js ''Draft'') (js ''# Sets''))"
  define edits where "edits = [(40::int, js ''c2'', js ''# Sets 2''), (50, js ''c3'', js ''# Sets 3'')]"
  obtain rs st2 where r: "saveVersions st1 (js ''c'') edits = (rs, st2)"
    by (cases "saveVersions st1 (js ''c'') edits")
  have n: "length edits = 2" by (simp add: edits_def)
  from versionNumbers_contiguous [of twoPapers 30 "js ''c''" "js ''c1''" "js ''Sets''"
      "js ''Draft''" "js ''# Sets''" edits someCalls]
  have f: "length rs = length edits"
    "\<forall>k<length rs. \<exists>q. rs ! k = Some q \<and> map versionNumber (versions q) = [1..<k + 3]"
    "\<exists>q. getPaperById st2 (js ''c'') = Some q
         \<and> map versionNumber (versions q) = [1..<length edits + 2]"
    unfolding st1_def [symmetric] Let_def r by (auto simp del: upt_Suc)
  from f(1) n obtain r0 r1 where rs: "rs = [r0, r1]"
    by (cases rs; cases "tl rs") auto
  have u3: "[1..<0 + 3] = [1, 2::nat]" and u4: "[1..<1 + 3] = [1, 2, 3::nat]"
    and u5: "[1..<2 + 2] = [1, 2, 3::nat]"
    by (simp_all add: upt_rec)
  from f(2) rs have "\<exists>q. rs ! 0 = Some q \<and> map versionNumber (versions q) = [1..<0 + 3]"
    by (intro f(2) [rule_format]) simp
  then obtain q0 where q0: "r0 = Some q0" "map versionNumber (versions q0) = [1, 2]"
    unfolding u3 by (auto simp: rs)
  from f(2) rs have "\<exists>q. rs ! 1 = Some q \<and> map versionNumber (versions q) = [1..<1 + 3]"
    by (intro f(2) [rule_format]) simp
  then obtain q1 where q1: "r1 = Some q1" "map versionNumber (versions q1) = [1, 2, 3]"
    unfolding u4 by (auto simp: rs)
  from f(3) obtain q where q: "getPaperById st2 (js ''c'') = Some q"
    "map versionNumber (versions q) = [1, 2, 3]" unfolding n u5 by auto
  show ?thesis
    unfolding st1_def [symmetric] edits_def [symmetric] Let_def r
    using q0 q1 q h inv by (simp add: rs list_all_iff)
qed

subsection \<open>The order of the collection\<close>

lemma newestFirst_splice1:
  assumes "newestFirst ps"
  shows "newestFirst (splice1 i ps)"
proof -
  let ?R = "\<lambda>a b. updatedAt b \<le> updatedAt a"
  from assms have "sorted_wrt ?R (take i ps @ drop i ps)"
    by (simp add: newestFirst_def)
  then have across: "\<forall>x\<in>set (take i ps). \<forall>y\<in>set (drop i ps). ?R x y"
    by (simp only: sorted_wrt_append) blast
  have sub: "set (drop (Suc i) ps) \<subseteq> set (drop i ps)"
    by (rule set_drop_subset_set_drop) simp
  have "sorted_wrt ?R (take i ps)" "sorted_wrt ?R (drop (Suc i) ps)"
    using assms by (simp_all add: newestFirst_def sorted_wrt_take sorted_wrt_drop)
  with across sub show ?thesis
    unfolding newestFirst_def splice1_def sorted_wrt_append by blast
qed

lemma perform_members:
  assumes "p \<in> set (getPapers (perform st c))"
  shows "updatedAt p \<in> set (clock c) \<or> p \<in> set (getPapers st)"
proof (cases c)
  case (SaveNewPaper now newId newVid t ov c')
  with assms show ?thesis by (auto simp: saveNewPaper_def Let_def)
next
  case (SavePaperVersion now newVid paperId c')
  with assms show ?thesis
    using set_splice1 [of _ "getPapers st"]
    by (auto simp: savePaperVersion_def Let_def split: option.splits)
next
  case (DeletePaper i)
  with assms show ?thesis by (auto simp: deletePaper_def)
qed

lemma perform_newestFirst:
  assumes "newestFirst (getPapers st)"
    and "\<forall>p\<in>set (getPapers st). \<forall>t\<in>set (clock c). updatedAt p \<le> t"
  shows "newestFirst (getPapers (perform st c))"
proof (cases c)
  case (SaveNewPaper now newId newVid t ov c')
  with assms show ?thesis by (auto simp: saveNewPaper_def Let_def newestFirst_def)
next
  case (SavePaperVersion now newVid paperId c')
  show ?thesis
  proof (cases "findIndex (\<lambda>p. pid p = paperId) (getPapers st)")
    case None
    with SavePaperVersion assms(1) show ?thesis by (simp add: savePaperVersion_def)
  next
    case (Some index)
    have "\<forall>q\<in>set (splice1 index (getPapers st)). updatedAt q \<le> now"
      using assms(2) set_splice1 [of index "getPapers st"] SavePaperVersion by auto
    moreover have "sorted_wrt (\<lambda>a b. updatedAt b \<le> updatedAt a) (splice1 index (getPapers st))"
      using newestFirst_splice1 [OF assms(1), of index] by (simp add: newestFirst_def)
    ultimately show ?thesis
      using SavePaperVersion Some by (simp add: savePaperVersion_def Let_def newestFirst_def)
  qed
next
  case (DeletePaper i)
  with assms(1) show ?thesis by (simp add: deletePaper_def newestFirst_def sorted_wrt_filter)
qed

lemma performAll_newestFirst:
  assumes "sorted (clocks cs)" "newestFirst (getPapers st)"
    and "\<forall>p\<in>set (getPapers st). \<forall>t\<in>set (clocks cs). updatedAt p \<le> t"
  shows "newestFirst (getPapers (performAll st cs))"
  using assms
proof (induction cs arbitrary: st)
  case Nil
  then show ?case by simp
next
  case (Cons c cs)
  have split_clocks: "clocks (c # cs) = clock c @ clocks cs" by (simp add: clocks_def)
  from Cons.prems(1) have s1: "sorted (clocks cs)"
    and s2: "\<forall>x\<in>set (clock c). \<forall>y\<in>set (clocks cs). x \<le> y"
    by (simp_all add: split_clocks sorted_append)
  have nf: "newestFirst (getPapers (perform st c))"
    using Cons.prems(2,3) by (intro perform_newestFirst) (auto simp: split_clocks)
  have bound: "\<forall>p\<in>set (getPapers (perform st c)). \<forall>t\<in>set (clocks cs). updatedAt p \<le> t"
  proof (intro ballI)
    fix p t assume p: "p \<in> set (getPapers (perform st c))" and t: "t \<in> set (clocks cs)"
    from perform_members [OF p] show "updatedAt p \<le> t"
    proof
      assume "updatedAt p \<in> set (clock c)"
      with s2 t show ?thesis by blast
    next
      assume "p \<in> set (getPapers st)"
      with Cons.prems(3) t show ?thesis by (simp add: split_clocks)
    qed
  qed
  from Cons.IH [OF s1 nf bound] show ?case by simp
qed

text \<open>
  Claim C3.  Start from a collection ordered by descending \<open>updatedAt\<close> that holds no
  paper newer than the timestamps to come (the empty collection of a fresh store is one),
  and perform any sequence of \<open>saveNewPaper\<close>, \<open>savePaperVersion\<close> and \<open>deletePaper\<close> calls
  whose timestamps do not decrease.  Then \<open>getPapers\<close> returns the papers ordered by
  descending \<open>updatedAt\<close>.  Besides, whenever \<open>savePaperVersion\<close> returns a paper, in any
  store, that paper is at index 0 of the collection, wherever it was before.
\<close>

theorem getPapers_newestFirst:
  assumes "sorted (clocks cs)" "newestFirst (getPapers st)"
    and "\<forall>p\<in>set (getPapers st). \<forall>t\<in>set (clocks cs). updatedAt p \<le> t"
  shows "newestFirst (getPapers (performAll st cs))
       \<and> (\<forall>st0 now newVid paperId c p st'.
            savePaperVersion st0 now newVid paperId c = (Some p, st')
            \<longrightarrow> getPapers st' \<noteq> [] \<and> getPapers st' ! 0 = p \<and> pid p = paperId
                \<and> updatedAt p = now)"
proof
  show "newestFirst (getPapers (performAll st cs))"
    using assms by (rule performAll_newestFirst)
next
  show "\<forall>st0 now newVid paperId c p st'.
            savePaperVersion st0 now newVid paperId c = (Some p, st')
            \<longrightarrow> getPapers st' \<noteq> [] \<and> getPapers st' ! 0 = p \<and> pid p = paperId
                \<and> updatedAt p = now"
  proof (intro allI impI)
    fix st0 now newVid paperId c p st'
    assume run: "savePaperVersion st0 now newVid paperId c = (Some p, st')"
    then obtain index where ix: "findIndex (\<lambda>p. pid p = paperId) (getPapers st0) = Some index"
      by (cases "findIndex (\<lambda>p. pid p = paperId) (getPapers st0)")
         (auto simp: savePaperVersion_def)
    from findIndex_Some [OF ix] have "pid (getPapers st0 ! index) = paperId" by simp
    with run ix show "getPapers st' \<noteq> [] \<and> getPapers st' ! 0 = p \<and> pid p = paperId
                \<and> updatedAt p = now"
      by (auto simp: savePaperVersion_def Let_def)
  qed
qed

theorem getPapers_newestFirst_witness:
  "clocks someCalls = [30, 40, 50]
   \<and> map updatedAt (getPapers twoPapers) = [20, 15]
   \<and> newestFirst (getPapers twoPapers)
   \<and> newestFirst (getPapers (performAll twoPapers someCalls))
   \<and> map pid (getPapers (performAll twoPapers someCalls)) = [js ''b'', js ''c'']
   \<and> map updatedAt (getPapers (performAll twoPapers someCalls)) = [40, 30]
   \<and> map pid (getPapers twoPapers) = [js ''a'', js ''b'']
   \<and> (\<exists>p st'. savePaperVersion twoPapers 40 (js ''b2'') (js ''b'') (js ''# Trees 2'') = (Some p, st')
              \<and> getPapers st' ! 0 = p \<and> pid p = js ''b'')"
proof -
  have c: "clocks someCalls = [30, 40, 50]"
    by (simp add: someCalls_def clocks_def)
  have u: "map updatedAt (getPapers twoPapers) = [20, 15]"
    by (simp add: twoPapers_def paperA_def paperB_def)
  have h1: "sorted (clocks someCalls)" by (simp add: c)
  have h2: "newestFirst (getPapers twoPapers)"
    by (simp add: newestFirst_def twoPapers_def paperA_def paperB_def)
  have h3: "\<forall>p\<in>set (getPapers twoPapers). \<forall>t\<in>set (clocks someCalls). updatedAt p \<le> t"
    by (simp add: c) (simp add: twoPapers_def paperA_def paperB_def)
  have run: "getPapers (performAll twoPapers someCalls)
      = [paperB\<lparr>versions := versions paperB @ [\<lparr>vid = js ''b2'', versionNumber = 2,
                    content = js ''# Trees 2'', vcreatedAt = 40\<rparr>], updatedAt := 40\<rparr>,
         \<lparr>pid = js ''c'', topic = js ''Sets'', overview = js ''Draft'', createdAt = 30,
           updatedAt = 30, versions = [\<lparr>vid = js ''c1'', versionNumber = 1,
                    content = js ''# Sets'', vcreatedAt = 30\<rparr>]\<rparr>]"
    by (simp add: someCalls_def twoPapers_def paperA_def paperB_def saveNewPaper_def
        savePaperVersion_def deletePaper_def splice1_def Let_def js_def)
  have ids: "map pid (getPapers twoPapers) = [js ''a'', js ''b'']"
    by (simp add: twoPapers_def paperA_def paperB_def)
  obtain r st' where call:
    "savePaperVersion twoPapers 40 (js ''b2'') (js ''b'') (js ''# Trees 2'') = (r, st')"
    by (cases "savePaperVersion twoPapers 40 (js ''b2'') (js ''b'') (js ''# Trees 2'')")
  have "findIndex (\<lambda>p. pid p = js ''b'') (getPapers twoPapers) = Some 1"
    by (simp add: twoPapers_def paperA_def paperB_def js_def)
  with call obtain p where p: "r = Some p"
    by (auto simp: savePaperVersion_def Let_def)
  from getPapers_newestFirst [OF h1 h2 h3]
  have nf: "newestFirst (getPapers (performAll twoPapers someCalls))"
    and front: "getPapers st' ! 0 = p \<and> pid p = js ''b''"
    using call p by blast+
  from c u h2 nf ids front call p show ?thesis by (simp add: run paperB_def)
qed

section \<open>Properties of the renderer\<close>

subsection \<open>Lazy matching\<close>


lemma lazyStar_any_None:
  "lazyStar (\<lambda>c. True) lit s = None \<longleftrightarrow> \<not> (\<exists>b c. s = b @ lit @ c)"
proof (induction s)
  case Nil
  then show ?case by auto
next
  case (Cons x xs)
  show ?case
  proof (cases "prefix lit (x # xs)")
    case True
    then obtain c where "x # xs = [] @ lit @ c" by (auto simp: prefix_def)
    then have "\<exists>b c. x # xs = b @ lit @ c" by blast
    with True show ?thesis by simp
  next
    case False
    have "(\<exists>b c. x # xs = b @ lit @ c) \<longleftrightarrow> (\<exists>b c. xs = b @ lit @ c)"
    proof
      assume "\<exists>b c. x # xs = b @ lit @ c"
      then obtain b c where bc: "x # xs = b @ lit @ c" by blast
      with False have "b \<noteq> []" by (auto simp: prefix_def)
      then obtain b' where "b = x # b'" using bc by (cases b) auto
      with bc have "xs = b' @ lit @ c" by simp
      then show "\<exists>b c. xs = b @ lit @ c" by blast
    next
      assume "\<exists>b c. xs = b @ lit @ c"
      then obtain b c where "xs = b @ lit @ c" by blast
      then have "x # xs = (x # b) @ lit @ c" by simp
      then show "\<exists>b c. x # xs = b @ lit @ c" by blast
    qed
    with False Cons.IH show ?thesis by simp
  qed
qed

subsection \<open>parseFormatting\<close>
















text \<open>
  Claim C8, as amended.  On \<open>plain **bold** and *italic*\<close> the result has five runs: the
  four of the specification, in its order and with its contents, and after them an empty
  plain run, the text \<open>split\<close> returns after the last match.
\<close>

theorem parseFormatting_example:
  "parseFormatting (js ''plain **bold** and *italic*'')
     = [Plain (js ''plain ''), Strong (js ''bold''), Plain (js '' and ''), Em (js ''italic''),
        Plain (js '''')]"
  by (simp add: parseFormatting_def js_def matchEmphasis_def formatPart_def slice_def
      isLineTerminator_def suffix_to_prefix)

text \<open>
  Claim C8 as stated fails: the result is not the list of the four runs, it has five
  elements.
\<close>

theorem parseFormatting_example_counterexample:
  "parseFormatting (js ''plain **bold** and *italic*'')
     \<noteq> [Plain (js ''plain ''), Strong (js ''bold''), Plain (js '' and ''), Em (js ''italic'')]
   \<and> length (parseFormatting (js ''plain **bold** and *italic*'')) = 5"
  by (simp add: parseFormatting_def js_def matchEmphasis_def formatPart_def slice_def
      isLineTerminator_def suffix_to_prefix)

subsection \<open>The sections of a paper\<close>

lemma matchFence_None:
  "matchFence s = None \<longleftrightarrow> \<not> (\<exists>b c. s = js ''```mermaid'' @ b @ js ''```'' @ c)"
proof (cases "prefix (js ''```mermaid'') s")
  case True
  then obtain t where t: "s = js ''```mermaid'' @ t" by (auto simp: prefix_def)
  have len: "length (js ''```mermaid'') = 10" by (simp add: js_def)
  have "matchFence s = lazyStar (\<lambda>c. True) (js ''```'') t"
    using True by (simp add: matchFence_def t len)
  then show ?thesis by (simp add: lazyStar_any_None t)
next
  case False
  then have "\<not> (\<exists>b c. s = js ''```mermaid'' @ b @ js ''```'' @ c)"
    by (auto simp: prefix_def)
  with False show ?thesis by (simp add: matchFence_def)
qed

lemma execFrom_None:
  "execFrom i s = None \<longleftrightarrow> \<not> (\<exists>a b c. s = a @ js ''```mermaid'' @ b @ js ''```'' @ c)"
proof (induction s arbitrary: i)
  case Nil
  then show ?case by (simp add: js_def)
next
  case (Cons x xs)
  let ?F = "\<lambda>s. \<exists>a b c. s = a @ js ''```mermaid'' @ b @ js ''```'' @ c"
  show ?case
  proof (cases "matchFence (x # xs)")
    case (Some k)
    then have "\<exists>b c. x # xs = js ''```mermaid'' @ b @ js ''```'' @ c"
      using matchFence_None [of "x # xs"] by auto
    then obtain b c where "x # xs = [] @ js ''```mermaid'' @ b @ js ''```'' @ c" by auto
    then have "?F (x # xs)" by blast
    with Some show ?thesis by simp
  next
    case None
    then have nohead: "\<not> (\<exists>b c. x # xs = js ''```mermaid'' @ b @ js ''```'' @ c)"
      by (simp add: matchFence_None)
    have "?F (x # xs) \<longleftrightarrow> ?F xs"
    proof
      assume "?F (x # xs)"
      then obtain a b c where abc: "x # xs = a @ js ''```mermaid'' @ b @ js ''```'' @ c"
        by blast
      with nohead have "a \<noteq> []" by auto
      then obtain a' where "a = x # a'" using abc by (cases a) auto
      with abc have "xs = a' @ js ''```mermaid'' @ b @ js ''```'' @ c" by simp
      then show "?F xs" by blast
    next
      assume "?F xs"
      then obtain a b c where "xs = a @ js ''```mermaid'' @ b @ js ''```'' @ c" by blast
      then have "x # xs = (x # a) @ js ''```mermaid'' @ b @ js ''```'' @ c" by simp
      then show "?F (x # xs)" by blast
    qed
    with None Cons.IH [of "Suc i"] show ?thesis by simp
  qed
qed

text \<open>
  Claim C5, as amended.  A text with no part of the form \<open>```mermaid\<close> ... \<open>```\<close> has no
  match of the fence pattern.  When it is not empty, its sections are exactly one section,
  of type \<open>text\<close>, whose content is the text.  When it is empty there is no section: the
  guard \<open>lastIndex < content.length\<close> fails.
\<close>

theorem sections_no_fence:
  assumes "\<not> (\<exists>a b c. content' = a @ js ''```mermaid'' @ b @ js ''```'' @ c)"
  shows "sections content' = (if content' = [] then [] else [\<lparr> stype = Text, scontent = content' \<rparr>])"
proof -
  from assms have "mermaidExec content' 0 = None"
    by (simp add: mermaidExec_def execFrom_None)
  then show ?thesis
    unfolding sections_def by (subst sectionsLoop.simps) simp
qed

text \<open>
  A text with an opening fence that is never closed: one text section, the fence in it.
\<close>

theorem sections_no_fence_witness:
  "\<not> (\<exists>a b c. js ''# T```mermaid A-->B'' = a @ js ''```mermaid'' @ b @ js ''```'' @ c)
   \<and> sections (js ''# T```mermaid A-->B'') = [\<lparr> stype = Text, scontent = js ''# T```mermaid A-->B'' \<rparr>]"
proof -
  have "execFrom 0 (js ''# T```mermaid A-->B'') = None"
    by (simp add: js_def matchFence_def)
  then have h: "\<not> (\<exists>a b c. js ''# T```mermaid A-->B'' = a @ js ''```mermaid'' @ b @ js ''```'' @ c)"
    using execFrom_None [of 0 "js ''# T```mermaid A-->B''"] by blast
  have ne: "js ''# T```mermaid A-->B'' \<noteq> []" by (simp add: js_def)
  from sections_no_fence [OF h] ne h show ?thesis by simp
qed

text \<open>
  Claim C5 as stated fails on the empty string: it holds no fence, and it has no section
  rather than one.
\<close>

theorem sections_no_fence_counterexample:
  "\<not> (\<exists>a b c. js '''' = a @ js ''```mermaid'' @ b @ js ''```'' @ c)
   \<and> sections (js '''') = []"
proof -
  have "mermaidExec (js '''') 0 = None" by (simp add: mermaidExec_def js_def)
  then have "sections (js '''') = []"
    unfolding sections_def by (subst sectionsLoop.simps) (simp add: js_def)
  then show ?thesis by (simp add: js_def)
qed

subsection \<open>renderTable\<close>

lemma split_not_Nil: "split sep s \<noteq> []"
  by (induction s) (auto split: list.splits)

lemma split_no_sep: "f \<in> set (split sep s) \<Longrightarrow> sep \<notin> set f"
proof (induction s arbitrary: f)
  case Nil
  then show ?case by simp
next
  case (Cons c cs)
  show ?case
  proof (cases "c = sep")
    case True
    with Cons show ?thesis by auto
  next
    case False
    obtain g gs where g: "split sep cs = g # gs"
      using split_not_Nil [of sep cs] by (cases "split sep cs") auto
    with False Cons.prems have "f = c # g \<or> f \<in> set gs" by simp
    then show ?thesis
    proof
      assume "f = c # g"
      with False Cons.IH [of g] g show ?thesis by simp
    next
      assume "f \<in> set gs"
      with Cons.IH [of f] g show ?thesis by simp
    qed
  qed
qed

lemma split_join: "concat (map (\<lambda>f. sep # f) (split sep s)) = sep # s"
proof (induction s)
  case Nil
  then show ?case by simp
next
  case (Cons c cs)
  obtain g gs where g: "split sep cs = g # gs"
    using split_not_Nil [of sep cs] by (cases "split sep cs") auto
  with Cons show ?case by auto
qed

lemma set_trim: "set (trim s) \<subseteq> set s"
proof -
  have "set (trim s) \<subseteq> set (rev (dropWhile isWhiteSpace s))"
    unfolding trim_def set_rev using set_dropWhileD by fastforce
  also have "\<dots> \<subseteq> set s"
    unfolding set_rev using set_dropWhileD by fastforce
  finally show ?thesis .
qed

lemma trim_ends:
  assumes "trim s \<noteq> []"
  shows "\<not> isWhiteSpace (hd (trim s)) \<and> \<not> isWhiteSpace (last (trim s))"
proof -
  define t where "t = dropWhile isWhiteSpace s"
  have tr: "trim s = rev (dropWhile isWhiteSpace (rev t))" by (simp add: trim_def t_def)
  with assms have d: "dropWhile isWhiteSpace (rev t) \<noteq> []" by simp
  then have "\<not> isWhiteSpace (hd (dropWhile isWhiteSpace (rev t)))" by (rule hd_dropWhile)
  then have l: "\<not> isWhiteSpace (last (trim s))"
    using d by (simp add: tr last_rev)
  from d have tne: "t \<noteq> []" by auto
  then have ht: "\<not> isWhiteSpace (hd t)" unfolding t_def by (rule hd_dropWhile)
  have "rev t = takeWhile isWhiteSpace (rev t) @ dropWhile isWhiteSpace (rev t)" by simp
  then have "t = trim s @ rev (takeWhile isWhiteSpace (rev t))"
    unfolding tr by (metis rev_append rev_rev_ident)
  with assms have "hd t = hd (trim s)" by (metis hd_append2)
  with ht l show ?thesis by simp
qed

lemma filter_dropEdges:
  "filter (\<lambda>c. trim c \<noteq> []) (dropEdges fs) = filter (\<lambda>c. trim c \<noteq> []) fs"
proof -
  let ?P = "\<lambda>c. trim c \<noteq> []"
  define fs1 where "fs1 = (case fs of [] \<Rightarrow> [] | f # r \<Rightarrow> if trim f = [] then r else fs)"
  have one: "filter ?P fs1 = filter ?P fs"
    by (cases fs) (simp_all add: fs1_def)
  have two: "filter ?P (if fs1 \<noteq> [] \<and> trim (last fs1) = [] then butlast fs1 else fs1)
               = filter ?P fs1"
  proof (cases "fs1 \<noteq> [] \<and> trim (last fs1) = []")
    case True
    then have "fs1 = butlast fs1 @ [last fs1]" by simp
    then have "filter ?P fs1 = filter ?P (butlast fs1) @ filter ?P [last fs1]"
      by (metis filter_append)
    with True show ?thesis by simp
  next
    case False
    then show ?thesis by auto
  qed
  show ?thesis
    unfolding dropEdges_def fs1_def [symmetric] Let_def using one two by simp
qed

text \<open>
  Claim C4, as amended.  For a non-empty list of rows, \<open>headers\<close> are the cells of row 0,
  row 1 is dropped whatever it holds, and \<open>bodyRows\<close> are the cells of the rows from index 2
  on, each row on its own: no row is padded or cut to the width of the header.  The cells
  of a row are its fragments between the pipes that are not empty after trimming, each
  trimmed: every empty fragment is dropped, the ones between two pipes as well as the
  leading and the trailing one.  So no cell is empty, holds a pipe, or starts or ends
  with white space.  Where no fragment other than the leading and the trailing one is
  empty after trimming, the cells are those of the rule as the specification states it.
\<close>

theorem renderTable_cells:
  "renderTable [headerRow] = Inr \<lparr> headers = cells headerRow, bodyRows = [] \<rparr>
   \<and> renderTable (headerRow # divider # body)
       = Inr \<lparr> headers = cells headerRow, bodyRows = map cells body \<rparr>
   \<and> cells row = map trim (filter (\<lambda>c. trim c \<noteq> []) (split 0x7C row))
   \<and> (\<forall>c \<in> set (cells row).
         c \<noteq> [] \<and> 0x7C \<notin> set c \<and> \<not> isWhiteSpace (hd c) \<and> \<not> isWhiteSpace (last c))
   \<and> ((\<forall>f \<in> set (dropEdges (split 0x7C row)). trim f \<noteq> []) \<longrightarrow> cells row = cellsAsStated row)"
proof (intro conjI ballI impI)
  show "renderTable [headerRow] = Inr \<lparr> headers = cells headerRow, bodyRows = [] \<rparr>"
    by (simp add: renderTable_def)
  show "renderTable (headerRow # divider # body)
       = Inr \<lparr> headers = cells headerRow, bodyRows = map cells body \<rparr>"
    by (simp add: renderTable_def)
  show "cells row = map trim (filter (\<lambda>c. trim c \<noteq> []) (split 0x7C row))"
    by (simp add: cells_def)
next
  fix c assume "c \<in> set (cells row)"
  then obtain f where f: "f \<in> set (split 0x7C row)" "trim f \<noteq> []" "c = trim f"
    by (auto simp: cells_def)
  from split_no_sep [OF f(1)] set_trim [of f] have "0x7C \<notin> set (trim f)" by auto
  with f(2,3) trim_ends [OF f(2)] show "c \<noteq> []" "0x7C \<notin> set c"
    "\<not> isWhiteSpace (hd c)" "\<not> isWhiteSpace (last c)" by simp_all
next
  assume a: "\<forall>f \<in> set (dropEdges (split 0x7C row)). trim f \<noteq> []"
  then have "filter (\<lambda>c. trim c \<noteq> []) (dropEdges (split 0x7C row)) = dropEdges (split 0x7C row)"
    by (simp add: filter_True)
  then have "filter (\<lambda>c. trim c \<noteq> []) (split 0x7C row) = dropEdges (split 0x7C row)"
    by (simp add: filter_dropEdges)
  then show "cells row = cellsAsStated row"
    by (simp add: cells_def cellsAsStated_def)
qed

text \<open>
  The table of the specification with a third cell in its body row, and the same table
  with another row 1.
\<close>

theorem renderTable_cells_witness:
  "list_all (\<lambda>f. trim f \<noteq> []) (dropEdges (split 0x7C (js ''| a | b |'')))
   \<and> renderTable [js ''| a | b |'', js ''|---|---|'', js ''| 1 | 2 | 3 |'']
       = Inr \<lparr> headers = [js ''a'', js ''b''], bodyRows = [[js ''1'', js ''2'', js ''3'']] \<rparr>
   \<and> renderTable [js ''| a | b |'', js ''no divider here'', js ''| 1 | 2 | 3 |'']
       = Inr \<lparr> headers = [js ''a'', js ''b''], bodyRows = [[js ''1'', js ''2'', js ''3'']] \<rparr>
   \<and> cellsAsStated (js ''| a | b |'') = [js ''a'', js ''b'']"
proof -
  have sp: "dropEdges (split 0x7C (js ''| a | b |'')) = [js '' a '', js '' b '']"
    by (simp add: js_def dropEdges_def trim_def isWhiteSpace_def)
  have h: "\<forall>f \<in> set (dropEdges (split 0x7C (js ''| a | b |''))). trim f \<noteq> []"
    unfolding sp by (simp add: js_def trim_def isWhiteSpace_def)
  have st: "cellsAsStated (js ''| a | b |'') = [js ''a'', js ''b'']"
    unfolding cellsAsStated_def sp by (simp add: js_def trim_def isWhiteSpace_def)
  have b: "cells (js ''| 1 | 2 | 3 |'') = [js ''1'', js ''2'', js ''3'']"
    by (simp add: js_def cells_def trim_def isWhiteSpace_def)
  from renderTable_cells [of "js ''| a | b |''" "js ''|---|---|''" "[js ''| 1 | 2 | 3 |'']"
      "js ''| a | b |''"] h
  have 1: "renderTable [js ''| a | b |'', js ''|---|---|'', js ''| 1 | 2 | 3 |'']
       = Inr \<lparr> headers = cells (js ''| a | b |''), bodyRows = map cells [js ''| 1 | 2 | 3 |''] \<rparr>"
    and c: "cells (js ''| a | b |'') = cellsAsStated (js ''| a | b |'')"
    by blast+
  from renderTable_cells [of "js ''| a | b |''" "js ''no divider here''" "[js ''| 1 | 2 | 3 |'']"
      "js ''| a | b |''"]
  have 2: "renderTable [js ''| a | b |'', js ''no divider here'', js ''| 1 | 2 | 3 |'']
       = Inr \<lparr> headers = cells (js ''| a | b |''), bodyRows = map cells [js ''| 1 | 2 | 3 |''] \<rparr>"
    by blast
  show ?thesis
    using h st 1 2 by (simp add: c b list_all_iff)
qed

text \<open>
  Claim C4 as stated fails on the row \<open>| a || b |\<close>: dropping only the leading and the
  trailing fragment leaves three cells, the second one empty; \<open>renderTable\<close> returns two.
\<close>

theorem renderTable_cells_counterexample:
  "renderTable [js ''| a || b |''] = Inr \<lparr> headers = [js ''a'', js ''b''], bodyRows = [] \<rparr>
   \<and> cellsAsStated (js ''| a || b |'') = [js ''a'', js '''', js ''b'']"
  by (simp add: renderTable_def cells_def cellsAsStated_def dropEdges_def js_def trim_def
      isWhiteSpace_def)

end
